theory Spec2Isabelle
  imports Main "HOL-Library.Word"
begin

section \<open>The discovery queue of go/discovery/discovery.go\<close>

text \<open>
  The Go type \<open>uint\<close> of the counters is taken at its 64-bit width: addition and
  subtraction wrap modulo \<open>2 ^ 64\<close>.
\<close>

type_synonym uint = "64 word"

text \<open>
  The struct \<open>Queue\<close>. The key type \<open>inst.InstanceKey\<close> is declared in another package;
  the queue only compares keys and uses them as map keys, so the model is polymorphic in
  the key type \<open>'k\<close>.

  The fields \<open>concurrency\<close>, \<open>knownKeys\<close>, \<open>maxConcurrency\<close> and \<open>queue\<close> are the
  fields of the struct. The remaining fields of the struct are effects, and the record
  carries what they have done so far:
  \<^item> \<open>running\<close>: the goroutines started by \<open>dispatch\<close>
    (\<open>go func() { q.processor(key); q.done <- key }()\<close>) whose key has not yet been
    received from the channel \<open>done\<close>, oldest first;
  \<^item> \<open>spawned\<close>: every key for which such a goroutine was started, that is, every call
    of \<open>processor\<close>, in the order of the \<open>go\<close> statements;
  \<^item> \<open>warnings\<close>: the number of calls of \<open>log.Warningf\<close>.
  The mutex \<open>lock\<close> is held for the whole body of every operation that takes it and only
  the goroutine that runs \<open>HandleRequests\<close> touches the fields, so each operation is one
  atomic state transformer. The channel \<open>inputChan\<close> is the list of events given to
  \<open>HandleRequests\<close> below.
\<close>

record 'k Queue =
  concurrency :: uint
  knownKeys :: "'k \<rightharpoonup> bool"
  maxConcurrency :: uint
  queue :: "'k list"
  running :: "'k list"
  spawned :: "'k list"
  warnings :: nat

text \<open>
  How a call can fail to return: \<open>Fatal\<close> is \<open>log.Fatal\<close>, which ends the process;
  \<open>Blocked\<close> is a receive from \<open>done\<close> that the given schedule never serves.
\<close>

datatype stop = Fatal | Blocked

definition NewQueue :: "uint \<Rightarrow> 'k Queue" where
  "NewQueue m =
     \<lparr>concurrency = 0, knownKeys = Map.empty, maxConcurrency = m, queue = [],
      running = [], spawned = [], warnings = 0\<rparr>"

definition push :: "'k \<Rightarrow> 'k Queue \<Rightarrow> 'k Queue" where
  "push key q =
     (if knownKeys q key = None
      then q\<lparr>knownKeys := (knownKeys q)(key \<mapsto> True), queue := queue q @ [key]\<rparr>
      else q)"

definition pop :: "'k Queue \<Rightarrow> stop + ('k \<times> 'k Queue)" where
  "pop q =
     (case queue q of
        [] \<Rightarrow> Inl Fatal
      | key # rest \<Rightarrow> Inr (key, q\<lparr>queue := rest, knownKeys := (knownKeys q)(key := None)\<rparr>))"

definition dispatch :: "'k Queue \<Rightarrow> stop + 'k Queue" where
  "dispatch q =
     (case pop q of
        Inl e \<Rightarrow> Inl e
      | Inr (key, q1) \<Rightarrow>
          Inr (q1\<lparr>concurrency := concurrency q1 + 1,
                  knownKeys := (knownKeys q1)(key \<mapsto> True),
                  running := running q1 @ [key],
                  spawned := spawned q1 @ [key]\<rparr>))"

definition acknowledgeJob :: "'k \<Rightarrow> 'k Queue \<Rightarrow> 'k Queue" where
  "acknowledgeJob key q =
     q\<lparr>knownKeys := (knownKeys q)(key := None), concurrency := concurrency q - 1\<rparr>"

definition maybeDispatch :: "'k Queue \<Rightarrow> stop + 'k Queue" where
  "maybeDispatch q =
     (if concurrency q < maxConcurrency q \<and> length (queue q) > 0 then dispatch q else Inr q)"

definition queueAndMaybeDispatch :: "'k \<Rightarrow> 'k Queue \<Rightarrow> stop + 'k Queue" where
  "queueAndMaybeDispatch key q =
     (let q1 = push key q
      in if concurrency q1 < maxConcurrency q1 \<and> length (queue q1) > 0 then dispatch q1
         else Inr q1)"

text \<open>
  The receive \<open>key := <-q.done\<close>. Only a goroutine started by \<open>dispatch\<close> sends on
  \<open>done\<close>, and it sends its own key once: the receive of \<open>key\<close> takes one running job
  with that key, and blocks when there is none.
\<close>

definition recvDone :: "'k \<Rightarrow> 'k Queue \<Rightarrow> stop + 'k Queue" where
  "recvDone key q =
     (if key \<in> set (running q) then Inr (q\<lparr>running := remove1 key (running q)\<rparr>)
      else Inl Blocked)"

text \<open>
  \<open>cleanup\<close> runs its loop against the order \<open>ds\<close> in which the running jobs deliver
  their keys on \<open>done\<close>.
\<close>

fun cleanup :: "'k list \<Rightarrow> 'k Queue \<Rightarrow> stop + 'k Queue" where
  "cleanup ds q =
     (if concurrency q > 0 \<and> length (queue q) > 0 then
        (case maybeDispatch q of
           Inl e \<Rightarrow> Inl e
         | Inr q1 \<Rightarrow>
             (case ds of
                [] \<Rightarrow> Inl Blocked
              | key # ds' \<Rightarrow>
                  (case recvDone key q1 of
                     Inl e \<Rightarrow> Inl e
                   | Inr q2 \<Rightarrow> cleanup ds' (acknowledgeJob key q2))))
      else Inr q)"

declare cleanup.simps [simp del]

text \<open>
  What one \<open>select\<close> of \<open>HandleRequests\<close> can receive while \<open>inputChan\<close> is open: a key
  from \<open>inputChan\<close>, or a key from \<open>done\<close>.
\<close>

datatype 'k event = Arrive 'k | Done 'k

text \<open>
  One pass through the \<open>select\<close> statement; \<open>emptyKey\<close> is the zero value of the key
  type, a parameter here. The \<open>break\<close> of the empty-key branch leaves the \<open>select\<close>, not
  the \<open>for\<close> loop.
\<close>

fun select :: "'k \<Rightarrow> 'k event \<Rightarrow> 'k Queue \<Rightarrow> stop + 'k Queue" where
  "select emptyKey (Arrive key) q =
     (if key = emptyKey then Inr (q\<lparr>warnings := Suc (warnings q)\<rparr>)
      else queueAndMaybeDispatch key q)"
| "select emptyKey (Done key) q =
     (case recvDone key q of Inl e \<Rightarrow> Inl e | Inr q1 \<Rightarrow> Inr (acknowledgeJob key q1))"

text \<open>
  \<open>HandleRequests\<close> on a schedule: the events \<open>evs\<close> that its \<open>select\<close> receives, in
  order, until \<open>inputChan\<close> is closed, and the completions \<open>ds\<close> delivered to \<open>cleanup\<close>
  after that. \<open>Inr q\<close> is the state in which it returns.
\<close>

fun HandleRequests :: "'k \<Rightarrow> 'k event list \<Rightarrow> 'k list \<Rightarrow> 'k Queue \<Rightarrow> stop + 'k Queue" where
  "HandleRequests emptyKey [] ds q = cleanup ds q"
| "HandleRequests emptyKey (ev # evs) ds q =
     (case select emptyKey ev q of
        Inl e \<Rightarrow> Inl e
      | Inr q1 \<Rightarrow> HandleRequests emptyKey evs ds q1)"

text \<open>The state of the loop of \<open>HandleRequests\<close> when it has served the events \<open>evs\<close>.\<close>

fun served :: "'k \<Rightarrow> 'k event list \<Rightarrow> 'k Queue \<Rightarrow> stop + 'k Queue" where
  "served emptyKey [] q = Inr q"
| "served emptyKey (ev # evs) q =
     (case select emptyKey ev q of
        Inl e \<Rightarrow> Inl e
      | Inr q1 \<Rightarrow> served emptyKey evs q1)"

text \<open>
  The states the operations can produce from a new queue, with the keys that \<open>push\<close> has
  appended so far (the pushes that were not merged into a known key), oldest first.
  \<open>dispatch\<close> is called under the guard of \<open>maybeDispatch\<close> and \<open>queueAndMaybeDispatch\<close>,
  \<open>acknowledgeJob\<close> on a key received from \<open>done\<close>. Writing a warning to the log is a
  step as well; it touches no field of the struct.
\<close>

inductive reaches :: "uint \<Rightarrow> 'k list \<Rightarrow> 'k Queue \<Rightarrow> bool" for m :: uint where
  start: "reaches m [] (NewQueue m)"
| pushed: "reaches m acc q \<Longrightarrow>
     reaches m (if knownKeys q key = None then acc @ [key] else acc) (push key q)"
| dispatched: "reaches m acc q \<Longrightarrow> concurrency q < maxConcurrency q \<and> length (queue q) > 0 \<Longrightarrow>
     dispatch q = Inr q' \<Longrightarrow> reaches m acc q'"
| completed: "reaches m acc q \<Longrightarrow> recvDone key q = Inr q1 \<Longrightarrow>
     reaches m acc (acknowledgeJob key q1)"
| warned: "reaches m acc q \<Longrightarrow> reaches m acc (q\<lparr>warnings := Suc (warnings q)\<rparr>)"

section \<open>Single operations\<close>

text \<open>
  C4. A push of a key that is already in the known set changes nothing: the known set, the
  pending sequence and the active count, and with them the whole state, are the same
  before and after.
\<close>

theorem push_known_unchanged:
  "knownKeys q key \<noteq> None \<Longrightarrow> push key q = q"
  by (auto simp: push_def)

theorem push_known_unchanged_witness:
  "knownKeys (push (1::nat) (NewQueue 2)) 1 \<noteq> None \<and>
   push 1 (push (1::nat) (NewQueue 2)) = push 1 (NewQueue 2)"
proof -
  have h: "knownKeys (push (1::nat) (NewQueue 2)) 1 \<noteq> None"
    by (simp add: push_def NewQueue_def)
  show ?thesis using h push_known_unchanged [OF h] by simp
qed

text \<open>
  C10. \<open>acknowledgeJob\<close> subtracts one from the unsigned active count whatever its
  value. At count 0 the result is \<open>2 ^ 64 - 1\<close>, and deleting a key that the known set
  does not hold leaves the known set as it was; the call neither fails nor keeps the
  count at 0.
\<close>

theorem acknowledgeJob_wraps_at_zero:
  "concurrency (acknowledgeJob key q) = concurrency q - 1 \<and>
   (concurrency q = 0 \<longrightarrow>
      concurrency (acknowledgeJob key q) = 2 ^ 64 - 1 \<and>
      unat (concurrency (acknowledgeJob key q)) = 18446744073709551615 \<and>
      concurrency (acknowledgeJob key q) \<noteq> 0) \<and>
   (knownKeys q key = None \<longrightarrow> knownKeys (acknowledgeJob key q) = knownKeys q)"
  by (auto simp: acknowledgeJob_def unsigned_minus_1_eq_mask mask_eq_exp_minus_1)

theorem acknowledgeJob_wraps_at_zero_witness:
  "concurrency (NewQueue 3 :: nat Queue) = 0 \<and>
   knownKeys (NewQueue 3 :: nat Queue) 7 = None \<and>
   unat (concurrency (acknowledgeJob 7 (NewQueue 3 :: nat Queue))) = 18446744073709551615 \<and>
   knownKeys (acknowledgeJob 7 (NewQueue 3 :: nat Queue)) = knownKeys (NewQueue 3)"
  using acknowledgeJob_wraps_at_zero [where key = "7::nat" and q = "NewQueue 3"]
  by (simp add: NewQueue_def unsigned_minus_1_eq_mask mask_eq_exp_minus_1)

section \<open>The fatal branch of pop\<close>

lemma pop_Fatal_iff: "pop q = Inl Fatal \<longleftrightarrow> queue q = []"
  by (cases "queue q") (simp_all add: pop_def)

lemma pop_nonempty:
  "queue q \<noteq> [] \<Longrightarrow>
   pop q = Inr (hd (queue q),
     q\<lparr>queue := tl (queue q), knownKeys := (knownKeys q)(hd (queue q) := None)\<rparr>)"
  by (cases "queue q") (simp_all add: pop_def)

lemma dispatch_nonempty:
  "queue q \<noteq> [] \<Longrightarrow>
   dispatch q = Inr (q\<lparr>queue := tl (queue q),
     knownKeys := (knownKeys q)(hd (queue q) \<mapsto> True),
     concurrency := concurrency q + 1,
     running := running q @ [hd (queue q)],
     spawned := spawned q @ [hd (queue q)]\<rparr>)"
  by (simp add: dispatch_def pop_nonempty)

lemma maybeDispatch_Inl: "maybeDispatch q = Inl e \<Longrightarrow> False"
  by (simp add: maybeDispatch_def dispatch_nonempty split: if_splits)

lemma queueAndMaybeDispatch_Inl: "queueAndMaybeDispatch key q = Inl e \<Longrightarrow> False"
  by (simp add: queueAndMaybeDispatch_def Let_def dispatch_nonempty split: if_splits)

lemma recvDone_Inl: "recvDone key q = Inl e \<Longrightarrow> e = Blocked"
  by (simp add: recvDone_def split: if_splits)

lemma cleanup_Inl: "cleanup ds q = Inl e \<Longrightarrow> e = Blocked"
proof (induction ds q rule: cleanup.induct)
  case (1 ds q)
  from "1.prems" "1.IH" show ?case
    by (subst (asm) cleanup.simps)
      (auto split: if_splits sum.splits list.splits
        dest: maybeDispatch_Inl recvDone_Inl)
qed

lemma select_Inl: "select emptyKey ev q = Inl e \<Longrightarrow> e = Blocked"
  by (cases ev)
    (auto split: if_splits sum.splits dest: queueAndMaybeDispatch_Inl recvDone_Inl)

lemma HandleRequests_Inl: "HandleRequests emptyKey evs ds q = Inl e \<Longrightarrow> e = Blocked"
  by (induction evs arbitrary: q)
    (auto split: sum.splits dest: cleanup_Inl select_Inl)

text \<open>
  C7. \<open>pop\<close> ends the process exactly when the pending sequence is empty. On a
  non-empty pending sequence it returns the head, takes it off the pending sequence and
  deletes it from the known set. Every caller reaches \<open>pop\<close> through \<open>dispatch\<close> under
  the guard that the pending sequence is non-empty, so neither \<open>maybeDispatch\<close>, nor
  \<open>queueAndMaybeDispatch\<close>, nor \<open>cleanup\<close>, nor \<open>HandleRequests\<close> ever takes the fatal
  branch.
\<close>

theorem pop_fatal_iff_empty:
  "(pop q = Inl Fatal \<longleftrightarrow> queue q = []) \<and>
   (queue q \<noteq> [] \<longrightarrow>
      pop q = Inr (hd (queue q),
        q\<lparr>queue := tl (queue q), knownKeys := (knownKeys q)(hd (queue q) := None)\<rparr>)) \<and>
   maybeDispatch q \<noteq> Inl Fatal \<and>
   queueAndMaybeDispatch key q \<noteq> Inl Fatal \<and>
   cleanup ds q \<noteq> Inl Fatal \<and>
   HandleRequests emptyKey evs ds q \<noteq> Inl Fatal"
  using pop_Fatal_iff [of q] pop_nonempty [of q] maybeDispatch_Inl [of q Fatal]
    queueAndMaybeDispatch_Inl [of key q Fatal] cleanup_Inl [of ds q Fatal]
    HandleRequests_Inl [of emptyKey evs ds q Fatal]
  by blast

theorem pop_fatal_iff_empty_witness:
  "queue (push (1::nat) (NewQueue 2)) \<noteq> [] \<and>
   map_sum id fst (pop (push (1::nat) (NewQueue 2))) = Inr 1 \<and>
   map_sum id (queue \<circ> snd) (pop (push (1::nat) (NewQueue 2))) = Inr [] \<and>
   map_sum id (\<lambda>r. knownKeys (snd r) 1) (pop (push (1::nat) (NewQueue 2))) = Inr None \<and>
   pop (NewQueue 2 :: nat Queue) = Inl Fatal \<and>
   maybeDispatch (NewQueue 2 :: nat Queue) = Inr (NewQueue 2)"
  using pop_fatal_iff_empty [where q = "push (1::nat) (NewQueue 2)" and key = 1 and ds = "[]"
      and emptyKey = 0 and evs = "[]"]
    pop_fatal_iff_empty [where q = "NewQueue 2 :: nat Queue" and key = 1 and ds = "[]"
      and emptyKey = 0 and evs = "[]"]
  by (simp add: push_def NewQueue_def maybeDispatch_def)

section \<open>Invariants of the reachable states\<close>

lemma uint_succ_below: "(c :: uint) < m \<Longrightarrow> unat (c + 1) = Suc (unat c) \<and> c + 1 \<le> m"
  by unat_arith

lemma uint_pred_above:
  "(c :: uint) \<le> m \<Longrightarrow> 0 < unat c \<Longrightarrow> unat (c - 1) = unat c - 1 \<and> c - 1 \<le> m"
  by unat_arith

lemma reaches_maxConcurrency: "reaches m acc q \<Longrightarrow> maxConcurrency q = m"
proof (induction rule: reaches.induct)
  case start
  show ?case by (simp add: NewQueue_def)
next
  case (pushed acc q key)
  then show ?case by (simp add: push_def)
next
  case (dispatched acc q q')
  then show ?case by (auto simp: dispatch_nonempty)
next
  case (completed acc q key q1)
  then show ?case by (auto simp: recvDone_def acknowledgeJob_def split: if_splits)
next
  case (warned acc q)
  then show ?case by simp
qed

lemma reaches_count:
  "reaches m acc q \<Longrightarrow>
   unat (concurrency q) = length (running q) \<and> concurrency q \<le> maxConcurrency q"
proof (induction rule: reaches.induct)
  case start
  show ?case by (simp add: NewQueue_def)
next
  case (pushed acc q key)
  then show ?case by (simp add: push_def)
next
  case (dispatched acc q q')
  then show ?case
    using uint_succ_below [of "concurrency q" "maxConcurrency q"]
    by (auto simp: dispatch_nonempty)
next
  case (completed acc q key q1)
  from completed.hyps(2) have k: "key \<in> set (running q)"
    and q1: "q1 = q\<lparr>running := remove1 key (running q)\<rparr>"
    by (auto simp: recvDone_def split: if_splits)
  from k have "0 < length (running q)" by (cases "running q") auto
  with completed.IH have "0 < unat (concurrency q)" by simp
  with completed.IH uint_pred_above [of "concurrency q" "maxConcurrency q"]
  show ?case
    using k by (simp add: q1 acknowledgeJob_def length_remove1)
next
  case (warned acc q)
  then show ?case by simp
qed

lemma dom_if_Some: "dom (\<lambda>a. if a = k then Some v else f a) = insert k (dom f)"
  by (auto split: if_splits)

lemma dom_if_None: "dom (\<lambda>a. if a = k then None else f a) = dom f - {k}"
  by (auto split: if_splits)

lemma reaches_known:
  "reaches m acc q \<Longrightarrow>
   dom (knownKeys q) = set (queue q) \<union> set (running q) \<and> distinct (queue q @ running q)"
proof (induction rule: reaches.induct)
  case start
  show ?case by (simp add: NewQueue_def)
next
  case (pushed acc q key)
  show ?case
  proof (cases "knownKeys q key = None")
    case True
    then have "key \<notin> dom (knownKeys q)" by (simp add: domIff)
    with pushed.IH have "key \<notin> set (queue q) \<and> key \<notin> set (running q)" by simp
    with pushed.IH True show ?thesis by (simp add: push_def dom_if_Some)
  next
    case False
    then have "push key q = q" by (auto simp: push_def)
    with pushed.IH show ?thesis by simp
  qed
next
  case (dispatched acc q q')
  from dispatched.hyps(2) obtain k rest where kr: "queue q = k # rest"
    by (cases "queue q") auto
  with dispatched.hyps(3) have q': "q' = q\<lparr>queue := rest,
     knownKeys := (knownKeys q)(k \<mapsto> True), concurrency := concurrency q + 1,
     running := running q @ [k], spawned := spawned q @ [k]\<rparr>"
    by (simp add: dispatch_nonempty)
  from dispatched.IH kr show ?case
    by (simp add: q' dom_if_Some)
next
  case (completed acc q key q1)
  from completed.hyps(2) have k: "key \<in> set (running q)"
    and q1: "q1 = q\<lparr>running := remove1 key (running q)\<rparr>"
    by (auto simp: recvDone_def split: if_splits)
  from completed.IH k have "key \<notin> set (queue q)" by auto
  with completed.IH k show ?case
    by (simp add: q1 acknowledgeJob_def dom_if_None) blast
next
  case (warned acc q)
  then show ?case by simp
qed

lemma reaches_fifo: "reaches m acc q \<Longrightarrow> acc = spawned q @ queue q"
proof (induction rule: reaches.induct)
  case start
  show ?case by (simp add: NewQueue_def)
next
  case (pushed acc q key)
  then show ?case by (simp add: push_def)
next
  case (dispatched acc q q')
  then show ?case
    by (cases "queue q") (auto simp: dispatch_nonempty)
next
  case (completed acc q key q1)
  then show ?case by (auto simp: recvDone_def acknowledgeJob_def split: if_splits)
next
  case (warned acc q)
  then show ?case by simp
qed

text \<open>
  Every state of the loop of \<open>HandleRequests\<close>, and every state in which \<open>cleanup\<close>
  returns, is one of the reachable states.
\<close>

lemma select_reaches:
  assumes "reaches m acc q" and "select emptyKey ev q = Inr q'"
  shows "\<exists>acc'. reaches m acc' q'"
proof (cases ev)
  case (Arrive key)
  show ?thesis
  proof (cases "key = emptyKey")
    case True
    with assms Arrive reaches.warned [of m acc q] show ?thesis by auto
  next
    case False
    let ?q1 = "push key q"
    let ?acc1 = "if knownKeys q key = None then acc @ [key] else acc"
    have r1: "reaches m ?acc1 ?q1" using assms(1) by (rule reaches.pushed)
    show ?thesis
    proof (cases "concurrency ?q1 < maxConcurrency ?q1 \<and> length (queue ?q1) > 0")
      case g: True
      with assms(2) Arrive False have "dispatch ?q1 = Inr q'"
        by (simp add: queueAndMaybeDispatch_def Let_def)
      with r1 g have "reaches m ?acc1 q'" by (rule reaches.dispatched)
      then show ?thesis ..
    next
      case g: False
      with assms(2) Arrive False have "q' = ?q1"
        by (auto simp: queueAndMaybeDispatch_def Let_def)
      with r1 show ?thesis by blast
    qed
  qed
next
  case (Done key)
  with assms(2) obtain q1 where "recvDone key q = Inr q1" and "q' = acknowledgeJob key q1"
    by (auto split: sum.splits)
  with assms(1) reaches.completed [of m acc q key q1] show ?thesis by blast
qed

lemma served_reaches:
  "reaches m acc q \<Longrightarrow> served emptyKey evs q = Inr q' \<Longrightarrow> \<exists>acc'. reaches m acc' q'"
proof (induction evs arbitrary: q acc)
  case Nil
  then show ?case by auto
next
  case (Cons ev evs)
  from Cons.prems(2) obtain q1 where s: "select emptyKey ev q = Inr q1"
    and r: "served emptyKey evs q1 = Inr q'"
    by (auto split: sum.splits)
  from select_reaches [OF Cons.prems(1) s] obtain acc1 where "reaches m acc1 q1" ..
  from Cons.IH [OF this r] show ?case .
qed

lemma cleanup_reaches:
  "reaches m acc q \<Longrightarrow> cleanup ds q = Inr q' \<Longrightarrow> reaches m acc q'"
proof (induction ds q rule: cleanup.induct)
  case (1 ds q)
  show ?case
  proof (cases "concurrency q > 0 \<and> length (queue q) > 0")
    case False
    with "1.prems" show ?thesis by (subst (asm) cleanup.simps) auto
  next
    case True
    with "1.prems"(2) obtain q1 key ds' q2 where m: "maybeDispatch q = Inr q1"
      and ds: "ds = key # ds'" and rc: "recvDone key q1 = Inr q2"
      and c: "cleanup ds' (acknowledgeJob key q2) = Inr q'"
      by (subst (asm) cleanup.simps) (auto split: sum.splits list.splits)
    have "reaches m acc q1"
    proof (cases "concurrency q < maxConcurrency q \<and> length (queue q) > 0")
      case g: True
      with m have "dispatch q = Inr q1" by (simp add: maybeDispatch_def)
      with "1.prems"(1) g show ?thesis by (rule reaches.dispatched)
    next
      case g: False
      with m have "q1 = q" by (auto simp: maybeDispatch_def)
      with "1.prems"(1) show ?thesis by simp
    qed
    then have "reaches m acc (acknowledgeJob key q2)" using rc by (rule reaches.completed)
    with "1.IH" [OF True m ds rc] c show ?thesis by blast
  qed
qed

text \<open>A reachable state used as an example: with \<open>maxConcurrency = 1\<close>, the key 5 is
  pushed and dispatched, the key 6 is pushed and waits, and the key 5 is pushed again.\<close>

lemma reaches_example:
  "reaches 1 [5, 6 :: nat]
     \<lparr>concurrency = 1, knownKeys = [5 \<mapsto> True, 6 \<mapsto> True], maxConcurrency = 1,
      queue = [6], running = [5], spawned = [5], warnings = 0\<rparr>"
proof -
  let ?q1 = "push (5::nat) (NewQueue 1)"
  let ?q2 = "\<lparr>concurrency = 1, knownKeys = [5 \<mapsto> True], maxConcurrency = 1,
      queue = [], running = [5::nat], spawned = [5], warnings = 0\<rparr>"
  let ?q3 = "\<lparr>concurrency = 1, knownKeys = [5 \<mapsto> True, 6 \<mapsto> True], maxConcurrency = 1,
      queue = [6], running = [5::nat], spawned = [5], warnings = 0\<rparr>"
  have r1: "reaches 1 [5] ?q1"
    using reaches.pushed [OF reaches.start, where key = "5::nat" and m = 1]
    by (simp add: NewQueue_def)
  have d: "dispatch ?q1 = Inr ?q2"
    by (simp add: dispatch_def pop_def push_def NewQueue_def)
  have g: "concurrency ?q1 < maxConcurrency ?q1 \<and> length (queue ?q1) > 0"
    by (simp add: push_def NewQueue_def)
  have r2: "reaches 1 [5] ?q2" using r1 g d by (rule reaches.dispatched)
  have p3: "push 6 ?q2 = ?q3" by (simp add: push_def)
  have r3: "reaches 1 [5, 6] ?q3"
    using reaches.pushed [OF r2, where key = 6] by (simp add: p3)
  have p4: "push 5 ?q3 = ?q3" by (simp add: push_def)
  show ?thesis using reaches.pushed [OF r3, where key = 5] by (simp add: p4)
qed

section \<open>Invariants as claimed\<close>

text \<open>
  C3. In every state reachable from the new queue by pushes, dispatches under the
  admission guard and completions, the active count is at least 0 and at most
  \<open>maxConcurrency\<close>. It never wraps either: it is the number of jobs that are running.
  This needs no assumption on \<open>maxConcurrency\<close>; it holds for \<open>maxConcurrency = 0\<close> too.
\<close>

theorem active_count_bounded:
  "reaches m acc q \<Longrightarrow>
   0 \<le> uint (concurrency q) \<and> concurrency q \<le> maxConcurrency q \<and>
   maxConcurrency q = m \<and> unat (concurrency q) = length (running q)"
  using reaches_count [of m acc q] reaches_maxConcurrency [of m acc q] by simp

theorem active_count_bounded_witness:
  "reaches 1 [5, 6 :: nat]
     \<lparr>concurrency = 1, knownKeys = [5 \<mapsto> True, 6 \<mapsto> True], maxConcurrency = 1,
      queue = [6], running = [5], spawned = [5], warnings = 0\<rparr> \<and>
   concurrency \<lparr>concurrency = 1, knownKeys = [5 \<mapsto> True, 6 \<mapsto> True], maxConcurrency = 1,
      queue = [6], running = [5::nat], spawned = [5], warnings = 0\<rparr> \<le> 1"
  using reaches_example active_count_bounded [OF reaches_example] by simp

text \<open>
  C5. In every reachable state a key is in the known set exactly when it is in the
  pending sequence or belongs to a running job. The pending sequence holds no key twice,
  no key is both pending and running, and no key is running twice; a push of a key that
  is pending or running changes nothing, so no such key is enqueued again.
\<close>

theorem known_iff_pending_or_active:
  "reaches m acc q \<Longrightarrow>
   (\<forall>k. knownKeys q k \<noteq> None \<longleftrightarrow> k \<in> set (queue q) \<or> k \<in> set (running q)) \<and>
   distinct (queue q) \<and> distinct (running q) \<and> set (queue q) \<inter> set (running q) = {} \<and>
   (\<forall>k. k \<in> set (queue q) \<or> k \<in> set (running q) \<longrightarrow> push k q = q)"
proof -
  assume r: "reaches m acc q"
  from reaches_known [OF r] have d: "dom (knownKeys q) = set (queue q) \<union> set (running q)"
    and di: "distinct (queue q @ running q)" by simp_all
  from d have k: "\<forall>k. knownKeys q k \<noteq> None \<longleftrightarrow> k \<in> set (queue q) \<or> k \<in> set (running q)"
    by (metis Un_iff domIff)
  have "\<forall>k. k \<in> set (queue q) \<or> k \<in> set (running q) \<longrightarrow> push k q = q"
  proof (intro allI impI)
    fix k
    assume "k \<in> set (queue q) \<or> k \<in> set (running q)"
    with k have "knownKeys q k \<noteq> None" by blast
    then show "push k q = q" by (auto simp: push_def)
  qed
  with k di show ?thesis by simp
qed

theorem known_iff_pending_or_active_witness:
  "reaches 1 [5, 6 :: nat]
     \<lparr>concurrency = 1, knownKeys = [5 \<mapsto> True, 6 \<mapsto> True], maxConcurrency = 1,
      queue = [6], running = [5], spawned = [5], warnings = 0\<rparr> \<and>
   push 5 \<lparr>concurrency = 1, knownKeys = [5 \<mapsto> True, 6 \<mapsto> True], maxConcurrency = 1,
      queue = [6], running = [5::nat], spawned = [5], warnings = 0\<rparr> =
     \<lparr>concurrency = 1, knownKeys = [5 \<mapsto> True, 6 \<mapsto> True], maxConcurrency = 1,
      queue = [6], running = [5::nat], spawned = [5], warnings = 0\<rparr>"
  using reaches_example known_iff_pending_or_active [OF reaches_example] by simp

text \<open>
  C6. Dispatch is first in, first out. A dispatch step takes exactly the head of the
  pending sequence and starts its job, and a push that is not merged appends at the tail.
  So in every reachable state the keys pushed and not merged, in the order of their
  pushes, are the keys dispatched so far, in the order of their dispatch, followed by the
  pending sequence: of two such keys, the one pushed first is dispatched first.
\<close>

theorem dispatch_order_fifo:
  "(\<forall>q'. dispatch q = Inr q' \<longrightarrow>
      queue q = hd (queue q) # queue q' \<and> spawned q' = spawned q @ [hd (queue q)]) \<and>
   (knownKeys q key = None \<longrightarrow> queue (push key q) = queue q @ [key]) \<and>
   (reaches m acc q \<longrightarrow>
      acc = spawned q @ queue q \<and> spawned q = take (length (spawned q)) acc)"
proof -
  have a: "\<forall>q'. dispatch q = Inr q' \<longrightarrow>
      queue q = hd (queue q) # queue q' \<and> spawned q' = spawned q @ [hd (queue q)]"
    by (cases "queue q") (auto simp: dispatch_def pop_def)
  have b: "knownKeys q key = None \<longrightarrow> queue (push key q) = queue q @ [key]"
    by (simp add: push_def)
  have c: "reaches m acc q \<longrightarrow>
      acc = spawned q @ queue q \<and> spawned q = take (length (spawned q)) acc"
    using reaches_fifo [of m acc q] by auto
  from a b c show ?thesis by blast
qed

theorem dispatch_order_fifo_witness:
  "reaches 1 [5, 6 :: nat]
     \<lparr>concurrency = 1, knownKeys = [5 \<mapsto> True, 6 \<mapsto> True], maxConcurrency = 1,
      queue = [6], running = [5], spawned = [5], warnings = 0\<rparr> \<and>
   [5, 6 :: nat] =
     spawned \<lparr>concurrency = 1, knownKeys = [5 \<mapsto> True, 6 \<mapsto> True], maxConcurrency = 1,
      queue = [6], running = [5::nat], spawned = [5], warnings = 0\<rparr> @
     queue \<lparr>concurrency = 1, knownKeys = [5 \<mapsto> True, 6 \<mapsto> True], maxConcurrency = 1,
      queue = [6], running = [5::nat], spawned = [5], warnings = 0\<rparr>"
  using reaches_example
    dispatch_order_fifo [where m = 1 and acc = "[5, 6 :: nat]" and key = 7 and
      q = "\<lparr>concurrency = 1, knownKeys = [5 \<mapsto> True, 6 \<mapsto> True], maxConcurrency = 1,
      queue = [6], running = [5::nat], spawned = [5], warnings = 0\<rparr>"]
  by simp

section \<open>The run loop\<close>

text \<open>
  C1. The claim is that \<open>HandleRequests\<close> returns, after \<open>inputChan\<close> is closed, only
  with an empty pending sequence and an active count of zero, every enqueued key having
  been dispatched. The loop of \<open>cleanup\<close> runs while the active count is positive
  \<^emph>\<open>and\<close> the pending sequence is non-empty, so it stops as soon as either is exhausted.
  With \<open>maxConcurrency = 1\<close> and the arrivals 1 and 2, \<open>HandleRequests\<close> returns once
  job 1 is done, with key 2 pending and never dispatched; with the single arrival 1 it
  returns at once, while job 1 is running and the active count is 1.
\<close>

theorem cleanup_returns_before_drained:
  "(case HandleRequests 0 [Arrive (1::nat), Arrive 2] [1] (NewQueue 1) of
      Inl e \<Rightarrow> False
    | Inr q \<Rightarrow> queue q = [2] \<and> spawned q = [1] \<and> concurrency q = 0 \<and> running q = []) \<and>
   (case HandleRequests 0 [Arrive (1::nat)] [] (NewQueue 1) of
      Inl e \<Rightarrow> False
    | Inr q \<Rightarrow> queue q = [] \<and> spawned q = [1] \<and> concurrency q = 1 \<and> running q = [1])"
  by (simp add: cleanup.simps queueAndMaybeDispatch_def Let_def push_def NewQueue_def
    dispatch_def pop_def maybeDispatch_def recvDone_def acknowledgeJob_def)

text \<open>
  C2. The claim is that the run loop performs the admission step after every completion.
  The \<open>done\<close> case of the \<open>select\<close> only calls \<open>acknowledgeJob\<close>. With
  \<open>maxConcurrency = 1\<close>, the arrivals 1 and 2 and then the completion of job 1, the loop
  is left with an active count of 0, below \<open>maxConcurrency\<close>, and key 2 pending and not
  dispatched; the admission step, had it run, would have dispatched key 2.
\<close>

theorem completion_without_admission:
  "(case served 0 [Arrive (1::nat), Arrive 2, Done 1] (NewQueue 1) of
      Inl e \<Rightarrow> False
    | Inr q \<Rightarrow> concurrency q = 0 \<and> maxConcurrency q = 1 \<and> queue q = [2] \<and>
        spawned q = [1] \<and> running q = [] \<and>
        map_sum id spawned (maybeDispatch q) = Inr [1, 2])"
  by (simp add: queueAndMaybeDispatch_def Let_def push_def NewQueue_def
    dispatch_def pop_def maybeDispatch_def recvDone_def acknowledgeJob_def)

subsection \<open>The empty key\<close>

lemma select_empty_out:
  assumes "emptyKey \<notin> set (queue q)" and "emptyKey \<notin> set (spawned q)"
    and "select emptyKey ev q = Inr q'"
  shows "emptyKey \<notin> set (queue q') \<and> emptyKey \<notin> set (spawned q')"
proof (cases ev)
  case (Arrive key)
  show ?thesis
  proof (cases "key = emptyKey")
    case True
    with assms Arrive show ?thesis by auto
  next
    case False
    have p: "emptyKey \<notin> set (queue (push key q))" "spawned (push key q) = spawned q"
      using assms(1) False by (auto simp: push_def)
    show ?thesis
    proof (cases "queue (push key q)")
      case Nil
      with assms Arrive False p show ?thesis
        by (auto simp: queueAndMaybeDispatch_def Let_def)
    next
      case (Cons k rest)
      with p assms(2) have "k \<noteq> emptyKey" "emptyKey \<notin> set rest" by auto
      with assms(2,3) Arrive False Cons p show ?thesis
        by (auto simp: queueAndMaybeDispatch_def Let_def dispatch_nonempty split: if_splits)
    qed
  qed
next
  case (Done key)
  with assms show ?thesis
    by (auto simp: recvDone_def acknowledgeJob_def split: if_splits)
qed

lemma served_empty_out:
  "emptyKey \<notin> set (queue q) \<Longrightarrow> emptyKey \<notin> set (spawned q) \<Longrightarrow>
   served emptyKey evs q = Inr q' \<Longrightarrow>
   emptyKey \<notin> set (queue q') \<and> emptyKey \<notin> set (spawned q')"
proof (induction evs arbitrary: q)
  case Nil
  then show ?case by simp
next
  case (Cons ev evs)
  from Cons.prems(3) obtain q1 where s: "select emptyKey ev q = Inr q1"
    and r: "served emptyKey evs q1 = Inr q'"
    by (auto split: sum.splits)
  from select_empty_out [OF Cons.prems(1,2) s] Cons.IH [OF _ _ r] show ?case by simp
qed

lemma cleanup_empty_out:
  "emptyKey \<notin> set (queue q) \<Longrightarrow> emptyKey \<notin> set (spawned q) \<Longrightarrow>
   cleanup ds q = Inr q' \<Longrightarrow>
   emptyKey \<notin> set (queue q') \<and> emptyKey \<notin> set (spawned q')"
proof (induction ds q rule: cleanup.induct)
  case (1 ds q)
  show ?case
  proof (cases "concurrency q > 0 \<and> length (queue q) > 0")
    case False
    with "1.prems" show ?thesis by (subst (asm) cleanup.simps) auto
  next
    case True
    with "1.prems"(3) obtain q1 key ds' q2 where m: "maybeDispatch q = Inr q1"
      and ds: "ds = key # ds'" and rc: "recvDone key q1 = Inr q2"
      and c: "cleanup ds' (acknowledgeJob key q2) = Inr q'"
      by (subst (asm) cleanup.simps) (auto split: sum.splits list.splits)
    from True obtain k rest where kr: "queue q = k # rest" by (cases "queue q") auto
    with "1.prems"(1) have "k \<noteq> emptyKey" "emptyKey \<notin> set rest" by auto
    with m kr "1.prems"(1,2)
    have "emptyKey \<notin> set (queue q1) \<and> emptyKey \<notin> set (spawned q1)"
      by (auto simp: maybeDispatch_def dispatch_nonempty split: if_splits)
    with rc have "emptyKey \<notin> set (queue (acknowledgeJob key q2)) \<and>
        emptyKey \<notin> set (spawned (acknowledgeJob key q2))"
      by (auto simp: recvDone_def acknowledgeJob_def split: if_splits)
    with "1.IH" [OF True m ds rc] c show ?thesis by blast
  qed
qed

lemma HandleRequests_served:
  "HandleRequests emptyKey evs ds q =
     (case served emptyKey evs q of Inl e \<Rightarrow> Inl e | Inr q1 \<Rightarrow> cleanup ds q1)"
  by (induction evs arbitrary: q) (auto split: sum.splits)

text \<open>
  C8. When the empty key arrives, the run loop logs a warning and goes on with every
  field of the queue as it was: the known set, the pending sequence, the active count and
  the jobs started are unchanged. The empty key therefore never enters the pending
  sequence and the processor is never started for it, neither while the loop serves
  events nor in \<open>cleanup\<close>.
\<close>

theorem empty_key_discarded:
  "select emptyKey (Arrive emptyKey) q = Inr (q\<lparr>warnings := Suc (warnings q)\<rparr>) \<and>
   (\<forall>q'. served emptyKey evs (NewQueue m) = Inr q' \<longrightarrow>
      emptyKey \<notin> set (queue q') \<and> emptyKey \<notin> set (spawned q')) \<and>
   (\<forall>q'. HandleRequests emptyKey evs ds (NewQueue m) = Inr q' \<longrightarrow>
      emptyKey \<notin> set (queue q') \<and> emptyKey \<notin> set (spawned q'))"
proof -
  have n: "emptyKey \<notin> set (queue (NewQueue m :: 'a Queue))"
    "emptyKey \<notin> set (spawned (NewQueue m :: 'a Queue))"
    by (simp_all add: NewQueue_def)
  have a: "\<forall>q'. served emptyKey evs (NewQueue m) = Inr q' \<longrightarrow>
      emptyKey \<notin> set (queue q') \<and> emptyKey \<notin> set (spawned q')"
    using served_empty_out [OF n] by blast
  have b: "\<forall>q'. HandleRequests emptyKey evs ds (NewQueue m) = Inr q' \<longrightarrow>
      emptyKey \<notin> set (queue q') \<and> emptyKey \<notin> set (spawned q')"
  proof (intro allI impI)
    fix q'
    assume "HandleRequests emptyKey evs ds (NewQueue m) = Inr q'"
    then obtain q1 where s: "served emptyKey evs (NewQueue m) = Inr q1"
      and c: "cleanup ds q1 = Inr q'"
      by (auto simp: HandleRequests_served split: sum.splits)
    from served_empty_out [OF n s] cleanup_empty_out [OF _ _ c]
    show "emptyKey \<notin> set (queue q') \<and> emptyKey \<notin> set (spawned q')" by simp
  qed
  from a b show ?thesis by simp
qed

theorem empty_key_discarded_witness:
  "select 0 (Arrive 0) (NewQueue 2 :: nat Queue) = Inr (NewQueue 2\<lparr>warnings := 1\<rparr>) \<and>
   map_sum id queue (served 0 [Arrive 0, Arrive 3, Arrive 0, Arrive 4, Arrive 5]
     (NewQueue 2 :: nat Queue)) = Inr [5] \<and>
   map_sum id spawned (served 0 [Arrive 0, Arrive 3, Arrive 0, Arrive 4, Arrive 5]
     (NewQueue 2 :: nat Queue)) = Inr [3, 4] \<and>
   map_sum id warnings (served 0 [Arrive 0, Arrive 3, Arrive 0, Arrive 4, Arrive 5]
     (NewQueue 2 :: nat Queue)) = Inr 2 \<and>
   map_sum id spawned (HandleRequests 0 [Arrive 0, Arrive 3] [] (NewQueue 2 :: nat Queue)) =
     Inr [3]"
  using empty_key_discarded [where emptyKey = "0::nat" and q = "NewQueue 2" and m = 2
      and evs = "[Arrive 0, Arrive 3, Arrive 0, Arrive 4, Arrive 5]" and ds = "[]"]
    empty_key_discarded [where emptyKey = "0::nat" and q = "NewQueue 2" and m = 2
      and evs = "[Arrive 0, Arrive 3]" and ds = "[]"]
  by (simp add: cleanup.simps queueAndMaybeDispatch_def Let_def push_def NewQueue_def
    dispatch_def pop_def)

subsection \<open>A queue with \<open>maxConcurrency = 0\<close>\<close>

lemma maybeDispatch_zero: "maxConcurrency q = 0 \<Longrightarrow> maybeDispatch q = Inr q"
  by (simp add: maybeDispatch_def)

lemma queueAndMaybeDispatch_zero:
  "maxConcurrency q = 0 \<Longrightarrow> queueAndMaybeDispatch key q = Inr (push key q)"
  by (simp add: queueAndMaybeDispatch_def Let_def push_def)

lemma select_zero:
  assumes "maxConcurrency q = 0" and "dom (knownKeys q) = set (queue q)"
    and "distinct (queue q)" and "spawned q = []" and "running q = []"
    and "concurrency q = 0" and "select emptyKey ev q = Inr q'"
  shows "maxConcurrency q' = 0 \<and> dom (knownKeys q') = set (queue q') \<and>
    distinct (queue q') \<and> spawned q' = [] \<and> running q' = [] \<and> concurrency q' = 0 \<and>
    set (queue q') = set (queue q) \<union> {k. Arrive k = ev \<and> k \<noteq> emptyKey}"
proof (cases ev)
  case (Arrive key)
  show ?thesis
  proof (cases "key = emptyKey")
    case True
    then have e0: "{k. Arrive k = ev \<and> k \<noteq> emptyKey} = {}" using Arrive by auto
    from assms(7) Arrive True have q': "q' = q\<lparr>warnings := Suc (warnings q)\<rparr>"
      by auto
    show ?thesis unfolding e0 q' using assms(1-6) by simp
  next
    case False
    then have e: "{k. Arrive k = ev \<and> k \<noteq> emptyKey} = {key}" using Arrive by auto
    from False assms(1,7) Arrive have q': "q' = push key q"
      by (simp add: queueAndMaybeDispatch_zero)
    show ?thesis
    proof (cases "knownKeys q key = None")
      case n: True
      then have "key \<notin> dom (knownKeys q)" by (simp add: domIff)
      with assms(2) have "key \<notin> set (queue q)" by simp
      with assms n show ?thesis
        by (simp add: q' e push_def dom_if_Some)
    next
      case n: False
      then have "key \<in> dom (knownKeys q)" by (simp add: domIff)
      with assms(2) have k: "key \<in> set (queue q)" by simp
      from n have "push key q = q" by (auto simp: push_def)
      with assms k show ?thesis by (simp add: q' e insert_absorb)
    qed
  qed
next
  case (Done key)
  with assms show ?thesis by (simp add: recvDone_def)
qed

lemma served_zero:
  "maxConcurrency q = 0 \<Longrightarrow> dom (knownKeys q) = set (queue q) \<Longrightarrow>
   distinct (queue q) \<Longrightarrow> spawned q = [] \<Longrightarrow> running q = [] \<Longrightarrow> concurrency q = 0 \<Longrightarrow>
   served emptyKey evs q = Inr q' \<Longrightarrow>
   distinct (queue q') \<and> spawned q' = [] \<and> concurrency q' = 0 \<and>
   set (queue q') = set (queue q) \<union> {k. Arrive k \<in> set evs \<and> k \<noteq> emptyKey}"
proof (induction evs arbitrary: q)
  case Nil
  then show ?case by simp
next
  case (Cons ev evs)
  from Cons.prems(7) obtain q1 where s: "select emptyKey ev q = Inr q1"
    and r: "served emptyKey evs q1 = Inr q'"
    by (auto split: sum.splits)
  note i = select_zero [OF Cons.prems(1-6) s]
  from i have "distinct (queue q') \<and> spawned q' = [] \<and> concurrency q' = 0 \<and>
      set (queue q') = set (queue q1) \<union> {k. Arrive k \<in> set evs \<and> k \<noteq> emptyKey}"
    using r by (intro Cons.IH) simp_all
  with i show ?case by auto
qed

text \<open>
  C9. \<open>NewQueue\<close> takes \<open>maxConcurrency = 0\<close> as it takes any other value. In a queue
  with \<open>maxConcurrency = 0\<close> the admission guard is false in every state:
  \<open>maybeDispatch\<close> does nothing and \<open>queueAndMaybeDispatch\<close> only pushes. Whatever the
  events, the run loop of such a queue starts no job, so the processor is never called,
  and every arrival other than the empty key is in the pending sequence, once; this is
  also the state in which \<open>HandleRequests\<close> returns.
\<close>

theorem zero_maxConcurrency_never_dispatches:
  "(NewQueue 0 :: 'a Queue) =
     \<lparr>concurrency = 0, knownKeys = Map.empty, maxConcurrency = 0, queue = [],
      running = [], spawned = [], warnings = 0\<rparr> \<and>
   (maxConcurrency q = 0 \<longrightarrow>
      \<not> concurrency q < maxConcurrency q \<and> maybeDispatch q = Inr q \<and>
      queueAndMaybeDispatch key q = Inr (push key q)) \<and>
   (\<forall>q'. served emptyKey evs (NewQueue 0 :: 'a Queue) = Inr q' \<longrightarrow>
      spawned q' = [] \<and> concurrency q' = 0 \<and> distinct (queue q') \<and>
      set (queue q') = {k. Arrive k \<in> set evs \<and> k \<noteq> emptyKey}) \<and>
   HandleRequests emptyKey evs ds (NewQueue 0 :: 'a Queue) =
     served emptyKey evs (NewQueue 0)"
proof -
  let ?n = "NewQueue 0 :: 'a Queue"
  have a: "maxConcurrency q = 0 \<longrightarrow>
      \<not> concurrency q < maxConcurrency q \<and> maybeDispatch q = Inr q \<and>
      queueAndMaybeDispatch key q = Inr (push key q)"
    by (simp add: maybeDispatch_zero queueAndMaybeDispatch_zero)
  have b: "\<forall>q'. served emptyKey evs ?n = Inr q' \<longrightarrow>
      spawned q' = [] \<and> concurrency q' = 0 \<and> distinct (queue q') \<and>
      set (queue q') = {k. Arrive k \<in> set evs \<and> k \<noteq> emptyKey}"
  proof (intro allI impI)
    fix q'
    assume s: "served emptyKey evs ?n = Inr q'"
    have "distinct (queue q') \<and> spawned q' = [] \<and> concurrency q' = 0 \<and>
      set (queue q') = set (queue ?n) \<union> {k. Arrive k \<in> set evs \<and> k \<noteq> emptyKey}"
      using s by (intro served_zero) (simp_all add: NewQueue_def)
    then show "spawned q' = [] \<and> concurrency q' = 0 \<and> distinct (queue q') \<and>
      set (queue q') = {k. Arrive k \<in> set evs \<and> k \<noteq> emptyKey}"
      by (simp add: NewQueue_def)
  qed
  have c: "HandleRequests emptyKey evs ds ?n = served emptyKey evs ?n"
  proof (cases "served emptyKey evs ?n")
    case (Inl e)
    then show ?thesis by (simp add: HandleRequests_served)
  next
    case (Inr q')
    with b have "concurrency q' = 0" by simp
    then have "cleanup ds q' = Inr q'" by (subst cleanup.simps) simp
    with Inr show ?thesis by (simp add: HandleRequests_served)
  qed
  from a b c show ?thesis by (simp add: NewQueue_def)
qed

theorem zero_maxConcurrency_never_dispatches_witness:
  "maxConcurrency (NewQueue 0 :: nat Queue) = 0 \<and>
   maybeDispatch (push 3 (NewQueue 0 :: nat Queue)) = Inr (push 3 (NewQueue 0)) \<and>
   map_sum id queue (served 0 [Arrive 3, Arrive 0, Arrive 4, Arrive 3]
     (NewQueue 0 :: nat Queue)) = Inr [3, 4] \<and>
   map_sum id spawned (HandleRequests 0 [Arrive 3, Arrive 0, Arrive 4, Arrive 3] []
     (NewQueue 0 :: nat Queue)) = Inr []"
  using zero_maxConcurrency_never_dispatches [where q = "push 3 (NewQueue 0 :: nat Queue)"
      and key = 3 and emptyKey = "0::nat" and evs = "[Arrive 3, Arrive 0, Arrive 4, Arrive 3]"
      and ds = "[]"]
  by (simp add: queueAndMaybeDispatch_def maybeDispatch_def cleanup.simps Let_def push_def
    NewQueue_def)

end
